theory Spec2Isabelle
  imports Complex_Main "HOL-Library.Word"
begin

section \<open>Data model of \<^verbatim>\<open>explore/exploration.h\<close>\<close>

text \<open>
  The header computes probability distributions over actions in caller-owned buffers.
  The embedding follows it function by function.

  \<^item> \<^verbatim>\<open>float\<close> is modelled as \<open>real\<close>: every statement below is about exact
    arithmetic, without rounding, infinities or NaN. The literal \<^verbatim>\<open>0.999\<close> is
    \<open>999 / 1000\<close>.
  \<^item> \<^verbatim>\<open>uint32_t\<close> is \<open>32 word\<close> and \<^verbatim>\<open>uint16_t\<close> is \<open>16 word\<close>; both wrap around.
    \<^verbatim>\<open>size_t\<close> values are lengths of buffers and are modelled as \<open>nat\<close>.
  \<^item> The three status macros are the constructors of \<open>status\<close>.
  \<^item> A pair of iterators \<^verbatim>\<open>(first, last)\<close> is an \<open>iter_range\<close>: either \<open>Inverted\<close>
    (\<^verbatim>\<open>last < first\<close>, no element may be touched) or \<open>Span xs\<close>, where \<open>xs\<close> is the
    content of the positions \<^verbatim>\<open>[first, last)\<close>. Every function returns its status
    together with the buffer as the call leaves it, so writes that happen before an
    error return stay visible.
\<close>

datatype status = S_EXPLORATION_OK | E_EXPLORATION_BAD_RANGE | E_EXPLORATION_EMPTY_PDF

datatype 'a iter_range = Inverted | Span "'a list"

section \<open>\<^verbatim>\<open>generate_epsilon_greedy\<close>\<close>

text \<open>
  \<^verbatim>\<open>top_action\<close> is compared with \<^verbatim>\<open>num_actions\<close> as an unsigned number; the clamp
  \<^verbatim>\<open>(uint32_t)num_actions - 1\<close> truncates the length to 32 bits before subtracting.
  The loop stores \<^verbatim>\<open>prob\<close> at every position, then one position is incremented.
\<close>

fun generate_epsilon_greedy ::
  "real \<Rightarrow> 32 word \<Rightarrow> real iter_range \<Rightarrow> status \<times> real iter_range" where
  "generate_epsilon_greedy epsilon top_action Inverted = (E_EXPLORATION_BAD_RANGE, Inverted)"
| "generate_epsilon_greedy epsilon top_action (Span pdf) =
     (let num_actions = length pdf in
      if num_actions = 0 then (E_EXPLORATION_EMPTY_PDF, Span pdf)
      else
        let top_action' =
              (if unat top_action \<ge> num_actions
               then (word_of_nat num_actions :: 32 word) - 1 else top_action);
            prob = epsilon / real num_actions;
            pdf1 = map (\<lambda>d. prob) pdf;
            i = unat top_action'
        in (S_EXPLORATION_OK, Span (pdf1[i := pdf1 ! i + (1 - epsilon)])))"

section \<open>\<^verbatim>\<open>generate_softmax\<close>\<close>

text \<open>
  \<^verbatim>\<open>std::max_element\<close> returns the position of the first largest element, and the
  end of the range (here position 0) when the range is empty.
  \<open>max_element_from largest i xs\<close> is its loop: \<open>largest\<close> is the pair of the position
  and value of the largest element so far, \<open>i\<close> the position of the head of \<open>xs\<close>.
\<close>

fun max_element_from :: "nat \<times> real \<Rightarrow> nat \<Rightarrow> real list \<Rightarrow> nat" where
  "max_element_from largest i [] = fst largest"
| "max_element_from largest i (x # xs) =
     (if snd largest < x then max_element_from (i, x) (Suc i) xs
      else max_element_from largest (Suc i) xs)"

fun max_element :: "real list \<Rightarrow> nat" where
  "max_element [] = 0"
| "max_element (x # xs) = max_element_from (0, x) 1 xs"

text \<open>
  The first loop walks the pdf positions \<open>d\<close> and the scores \<open>s\<close> in lockstep and stops
  when either range ends; it stores the unnormalised weight and adds it to
  \<^verbatim>\<open>norm\<close> (here \<open>nrm\<close>).

  \<open>exp\<close> is the real exponential. For \<open>lambda \<ge> 0\<close> the exponent
  \<open>lambda * (s - max_score)\<close> is at most 0, the weights lie in \<open>(0, 1]\<close> and the
  weight of the maximum is 1. For \<open>lambda < 0\<close> the exponent is non-negative and the
  float exponential can overflow to infinity, which \<open>real\<close> does not have; what is
  proved below about the values of the result is therefore stated for \<open>lambda \<ge> 0\<close>.
\<close>

fun softmax_weights ::
  "real \<Rightarrow> real \<Rightarrow> real list \<Rightarrow> real list \<Rightarrow> real \<Rightarrow> real list \<times> real" where
  "softmax_weights lambda max_score (d # ds) (s # ss) nrm =
     (let prob = exp (lambda * (s - max_score)) in
      case softmax_weights lambda max_score ds ss (nrm + prob) of
        (ds', nrm') \<Rightarrow> (prob # ds', nrm'))"
| "softmax_weights lambda max_score ds ss nrm = (ds, nrm)"

text \<open>
  On a length mismatch both ranges are cut to the shorter length and the pdf positions
  behind the cut are zeroed. The emptiness test that follows reads
  \<^verbatim>\<open>num_actions_scores\<close>, the length of the scores before the cut. The maximum is read
  through the iterator that \<^verbatim>\<open>std::max_element\<close> returns, which points into the
  scores buffer as it was passed.
\<close>

fun generate_softmax ::
  "real \<Rightarrow> real iter_range \<Rightarrow> real iter_range \<Rightarrow> status \<times> real iter_range" where
  "generate_softmax lambda (Span scores) (Span pdf) =
     (let num_actions_scores = length scores;
          num_actions_pdf = length pdf;
          k = min num_actions_scores num_actions_pdf;
          scores' = (if num_actions_scores \<noteq> num_actions_pdf then take k scores else scores);
          head = (if num_actions_scores \<noteq> num_actions_pdf then take k pdf else pdf);
          tail = (if num_actions_scores \<noteq> num_actions_pdf
                  then map (\<lambda>d. 0) (drop k pdf) else [])
      in if num_actions_scores = 0 then (E_EXPLORATION_EMPTY_PDF, Span (head @ tail))
         else
           let max_score = scores ! max_element scores' in
           case softmax_weights lambda max_score head scores' 0 of
             (head', nrm) \<Rightarrow>
               (S_EXPLORATION_OK, Span (map (\<lambda>d. d / nrm) head' @ tail)))"
| "generate_softmax lambda scores pdf = (E_EXPLORATION_BAD_RANGE, pdf)"

section \<open>\<^verbatim>\<open>generate_bag\<close>\<close>

text \<open>
  The vote counts are unsigned 32-bit numbers. \<^verbatim>\<open>std::accumulate\<close> starts from the
  \<^verbatim>\<open>int\<close> literal 0; each partial sum is computed in 32 bits and the result is
  stored in the \<^verbatim>\<open>uint32_t\<close> \<^verbatim>\<open>num_models\<close>, so the total is the sum of the counts
  modulo \<open>2 ^ 32\<close>, which is the sum of 32-bit words. The range of the votes is not
  checked by the function. The second loop stops when either range ends; pdf positions
  behind the last vote are not written.
\<close>

fun accumulate :: "32 word list \<Rightarrow> 32 word \<Rightarrow> 32 word" where
  "accumulate [] init = init"
| "accumulate (x # xs) init = accumulate xs (init + x)"

fun bag_divide :: "real list \<Rightarrow> 32 word list \<Rightarrow> 32 word \<Rightarrow> real list" where
  "bag_divide (d # ds) (t_a # ts) num_models =
     (real (unat t_a) / real (unat num_models)) # bag_divide ds ts num_models"
| "bag_divide ds ts num_models = ds"

fun generate_bag ::
  "32 word list \<Rightarrow> real iter_range \<Rightarrow> status \<times> real iter_range" where
  "generate_bag top_actions Inverted = (E_EXPLORATION_BAD_RANGE, Inverted)"
| "generate_bag top_actions (Span []) = (E_EXPLORATION_EMPTY_PDF, Span [])"
| "generate_bag top_actions (Span (d # ds)) =
     (let num_models = accumulate top_actions 0 in
      if num_models = 0 then (S_EXPLORATION_OK, Span (1 # map (\<lambda>d. 0) ds))
      else (S_EXPLORATION_OK, Span (bag_divide (d # ds) top_actions num_models)))"

section \<open>\<^verbatim>\<open>enforce_minimum_probability\<close>\<close>

text \<open>
  The uniform path first counts the support: \<^verbatim>\<open>support_size\<close> starts at the length
  and is decremented once for each entry equal to 0.
\<close>

fun count_support :: "real list \<Rightarrow> nat \<Rightarrow> nat" where
  "count_support [] support_size = support_size"
| "count_support (d # ds) support_size =
     count_support ds (if d = 0 then support_size - 1 else support_size)"

text \<open>
  The first loop of the general path. The accumulator is
  \<open>(touched_mass, untouched_mass, num_actions_touched)\<close>; the counter is a
  \<^verbatim>\<open>uint16_t\<close>.

  Two quotients of the general path can have a zero divisor: \<^verbatim>\<open>ratio\<close> when
  \<^verbatim>\<open>untouched_mass\<close> is 0, and the recomputed floor when the counter is 0. The float
  result is then infinite or NaN, which \<open>real\<close> does not have (the quotient is 0 in
  HOL). The properties proved below are about inputs on which the divisor is not 0;
  for a distribution this is shown, not assumed.
\<close>

fun raise_to_floor ::
  "real \<Rightarrow> bool \<Rightarrow> real list \<Rightarrow> real \<times> real \<times> 16 word \<Rightarrow>
   real list \<times> real \<times> real \<times> 16 word" where
  "raise_to_floor min_prob update_zero_elements [] acc = ([], acc)"
| "raise_to_floor min_prob update_zero_elements (prob # ds)
     (touched_mass, untouched_mass, num_actions_touched) =
     (if (prob > 0 \<or> (prob = 0 \<and> update_zero_elements)) \<and> prob \<le> min_prob
      then
        case raise_to_floor min_prob update_zero_elements ds
               (touched_mass + min_prob, untouched_mass, num_actions_touched + 1) of
          (ds', acc') \<Rightarrow> (min_prob # ds', acc')
      else
        case raise_to_floor min_prob update_zero_elements ds
               (touched_mass, untouched_mass + prob, num_actions_touched) of
          (ds', acc') \<Rightarrow> (prob # ds', acc'))"

text \<open>
  Emptiness is tested before the inverted range here (the other three functions test
  the inverted range first); an inverted range is not empty, so it still yields
  \<^verbatim>\<open>E_EXPLORATION_BAD_RANGE\<close>.
\<close>

fun enforce_minimum_probability ::
  "real \<Rightarrow> bool \<Rightarrow> real iter_range \<Rightarrow> status \<times> real iter_range" where
  "enforce_minimum_probability min_prob update_zero_elements (Span []) =
     (E_EXPLORATION_EMPTY_PDF, Span [])"
| "enforce_minimum_probability min_prob update_zero_elements Inverted =
     (E_EXPLORATION_BAD_RANGE, Inverted)"
| "enforce_minimum_probability min_prob update_zero_elements (Span pdf) =
     (let num_actions = length pdf in
      if min_prob > 999 / 1000 then
        let support_size =
              (if \<not> update_zero_elements then count_support pdf num_actions
               else num_actions)
        in (S_EXPLORATION_OK,
            Span (map (\<lambda>d. if update_zero_elements \<or> d > 0
                             then 1 / real support_size else d) pdf))
      else
        let min_prob1 = min_prob / real num_actions in
        case raise_to_floor min_prob1 update_zero_elements pdf (0, 0, 0) of
          (pdf1, touched_mass, untouched_mass, num_actions_touched) \<Rightarrow>
            if touched_mass > 0 then
              if touched_mass > 999 / 1000 then
                let min_prob2 = (1 - untouched_mass) / real (unat num_actions_touched)
                in (S_EXPLORATION_OK,
                    Span (map (\<lambda>prob.
                      if (prob > 0 \<or> (prob = 0 \<and> update_zero_elements)) \<and> prob \<le> min_prob2
                      then min_prob2 else prob) pdf1))
              else
                let ratio = (1 - touched_mass) / untouched_mass
                in (S_EXPLORATION_OK,
                    Span (map (\<lambda>d. if d > min_prob1 then d * ratio else d) pdf1))
            else (S_EXPLORATION_OK, Span pdf1))"

section \<open>The invariant of a distribution\<close>

text \<open>
  The data model asks of a pdf that every entry is non-negative and that the entries
  sum to 1. \<open>is_pdf\<close> states it for the content of a buffer, in exact arithmetic.
\<close>

definition is_pdf :: "real list \<Rightarrow> bool" where
  "is_pdf xs \<longleftrightarrow> (\<forall>x \<in> set xs. 0 \<le> x) \<and> sum_list xs = 1"

section \<open>Sums over lists\<close>

lemma sum_list_const_update:
  fixes c :: real
  assumes "i < n"
  shows "sum_list ((replicate n c)[i := c + b]) = real n * c + b"
  using assms
proof (induction n arbitrary: i)
  case 0
  then show ?case by simp
next
  case (Suc n)
  then show ?case by (cases i) (simp_all add: algebra_simps sum_list_replicate)
qed

lemma sum_list_exp_pos:
  fixes f :: "real \<Rightarrow> real"
  assumes "ss \<noteq> []"
  shows "0 < sum_list (map (\<lambda>s. exp (f s)) ss)"
  using assms
proof (induction ss)
  case Nil
  then show ?case by simp
next
  case (Cons s ss)
  have "0 \<le> sum_list (map (\<lambda>s. exp (f s)) ss)"
    by (rule sum_list_nonneg) auto
  then show ?case by (simp add: add_pos_nonneg)
qed

lemma sum_list_normalised:
  fixes w :: "'a \<Rightarrow> real"
  assumes "sum_list (map w ss) \<noteq> 0"
  shows "sum_list (map (\<lambda>s. w s / sum_list (map w ss)) ss) = 1"
proof -
  have "sum_list (map (\<lambda>s. w s * inverse (sum_list (map w ss))) ss) =
      sum_list (map w ss) * inverse (sum_list (map w ss))"
    by (rule sum_list_mult_const)
  then show ?thesis using assms by (simp add: divide_inverse)
qed

lemma normalised_nonneg:
  fixes w :: "'a \<Rightarrow> real"
  assumes "\<forall>s. 0 \<le> w s"
  shows "\<forall>x \<in> set (map (\<lambda>s. w s / sum_list (map w ss)) ss). 0 \<le> x"
  using assms by (auto intro!: divide_nonneg_nonneg sum_list_nonneg)

lemma sum_list_all_zero:
  fixes xs :: "real list"
  assumes "\<forall>x \<in> set xs. x = 0"
  shows "sum_list xs = 0"
  using assms by (induction xs) simp_all

lemma sum_list_filter_split:
  fixes xs :: "real list"
  shows "sum_list xs = sum_list (filter B xs) + sum_list (filter (\<lambda>p. \<not> B p) xs)"
  by (induction xs) simp_all

lemma sum_list_le_const:
  fixes xs :: "real list"
  assumes "\<forall>x \<in> set xs. x \<le> m"
  shows "sum_list xs \<le> m * real (length xs)"
  using assms by (induction xs) (auto simp: algebra_simps)

text \<open>
  A list whose entries are either replaced by a constant \<open>m\<close> (those satisfying \<open>B\<close>)
  or scaled by \<open>r\<close> (the others).
\<close>

lemma sum_list_two_kinds:
  fixes xs :: "real list"
  assumes "\<forall>p \<in> set xs. B p \<longrightarrow> g p = m" "\<forall>p \<in> set xs. \<not> B p \<longrightarrow> g p = r * p"
  shows "sum_list (map g xs) =
    m * real (length (filter B xs)) + r * sum_list (filter (\<lambda>p. \<not> B p) xs)"
  using assms by (induction xs) (auto simp: algebra_simps)

lemma is_pdf_nonempty: "is_pdf xs \<Longrightarrow> xs \<noteq> []"
  by (auto simp: is_pdf_def)

section \<open>Properties of \<^verbatim>\<open>generate_epsilon_greedy\<close>\<close>

text \<open>
  When the clamp fires, \<^verbatim>\<open>top_action\<close> is a 32-bit number that is at least the
  length, so the length fits 32 bits and the truncating cast loses nothing.
\<close>

lemma clamp_index:
  fixes top_action :: "32 word"
  assumes "0 < n" "n \<le> unat top_action"
  shows "unat ((word_of_nat n :: 32 word) - 1) = n - 1"
proof -
  have u: "unat (word_of_nat n :: 32 word) = n"
    using assms(2) by (rule le_unat_uoi)
  then have "(word_of_nat n :: 32 word) \<noteq> 0" using assms(1) by auto
  then show ?thesis using u by (simp add: unat_minus_one)
qed

lemma generate_epsilon_greedy_eq:
  assumes "pdf \<noteq> []"
  shows "generate_epsilon_greedy epsilon top_action (Span pdf) =
    (S_EXPLORATION_OK,
     Span ((replicate (length pdf) (epsilon / real (length pdf)))
             [min (unat top_action) (length pdf - 1) :=
                epsilon / real (length pdf) + (1 - epsilon)]))"
proof -
  define n where "n = length pdf"
  have n: "0 < n" using assms by (simp add: n_def)
  have idx: "unat (if n \<le> unat top_action then (word_of_nat n :: 32 word) - 1 else top_action) =
      min (unat top_action) (n - 1)"
    using n by (auto simp: clamp_index min_def)
  have t: "min (unat top_action) (n - 1) < n" using n by simp
  have m: "map (\<lambda>d. epsilon / real n) pdf = replicate n (epsilon / real n)"
    by (simp add: n_def map_replicate_const)
  show ?thesis
    unfolding n_def [symmetric] using n t idx by (simp add: Let_def n_def [symmetric] m)
qed

text \<open>
  Claim C7. On a pdf buffer of length \<open>N > 0\<close>, \<^verbatim>\<open>generate_epsilon_greedy\<close> succeeds
  for every \<open>epsilon\<close> and every \<open>top_action\<close>; the length is unchanged; the entry at
  \<open>top_action\<close>, clamped to \<open>N - 1\<close> when \<open>top_action \<ge> N\<close>, is
  \<open>epsilon / N + (1 - epsilon)\<close> and every other entry is \<open>epsilon / N\<close>; the entries
  sum to exactly 1.
\<close>

theorem generate_epsilon_greedy_result:
  assumes "pdf \<noteq> []"
  shows "\<exists>pdf'. generate_epsilon_greedy epsilon top_action (Span pdf) = (S_EXPLORATION_OK, Span pdf')
           \<and> length pdf' = length pdf
           \<and> (\<forall>i < length pdf. pdf' ! i =
                 (if i = min (unat top_action) (length pdf - 1)
                  then epsilon / real (length pdf) + (1 - epsilon)
                  else epsilon / real (length pdf)))
           \<and> sum_list pdf' = 1"
proof -
  define n where "n = length pdf"
  define t where "t = min (unat top_action) (n - 1)"
  define p where "p = epsilon / real n"
  have n: "0 < n" using assms by (simp add: n_def)
  have t: "t < n" using n by (simp add: t_def)
  have run: "generate_epsilon_greedy epsilon top_action (Span pdf) =
      (S_EXPLORATION_OK, Span ((replicate n p)[t := p + (1 - epsilon)]))"
    unfolding generate_epsilon_greedy_eq [OF assms] by (simp add: n_def t_def p_def)
  have s: "sum_list ((replicate n p)[t := p + (1 - epsilon)]) = 1"
    using t n by (simp add: sum_list_const_update p_def)
  have e: "\<forall>i < n. (replicate n p)[t := p + (1 - epsilon)] ! i =
      (if i = t then p + (1 - epsilon) else p)"
    using t by (simp add: nth_list_update)
  show ?thesis
    using run s e unfolding n_def t_def p_def by simp
qed

theorem generate_epsilon_greedy_result_witness:
  "[0, 0, 0] \<noteq> ([] :: real list)
   \<and> generate_epsilon_greedy (1 / 2) 7 (Span [0, 0, 0]) = (S_EXPLORATION_OK, Span [1 / 6, 1 / 6, 2 / 3])
   \<and> sum_list [1 / 6, 1 / 6, 2 / 3 :: real] = 1"
  using generate_epsilon_greedy_result [of "[0, 0, 0]" "1 / 2" 7]
  by (simp add: Let_def)

section \<open>Properties of \<^verbatim>\<open>generate_softmax\<close>\<close>

subsection \<open>The maximum\<close>

lemma max_element_from_bound:
  assumes "ys = pre @ xs" "i = length pre" "j < i"
  shows "max_element_from (j, ys ! j) i xs < length ys
       \<and> ys ! j \<le> ys ! max_element_from (j, ys ! j) i xs
       \<and> (\<forall>x \<in> set xs. x \<le> ys ! max_element_from (j, ys ! j) i xs)"
  using assms
proof (induction xs arbitrary: pre i j)
  case Nil
  then show ?case by simp
next
  case (Cons x xs)
  have ys: "ys = (pre @ [x]) @ xs" and i: "Suc i = length (pre @ [x])"
    using Cons.prems by simp_all
  have xi: "ys ! i = x" using Cons.prems by (simp add: nth_append)
  show ?case
  proof (cases "ys ! j < x")
    case True
    from Cons.IH [OF ys i, of i] xi True show ?thesis by auto
  next
    case False
    from Cons.IH [OF ys i, of j] Cons.prems(3) xi False show ?thesis by auto
  qed
qed

lemma max_element_bound:
  assumes "xs \<noteq> []"
  shows "max_element xs < length xs \<and> (\<forall>x \<in> set xs. x \<le> xs ! max_element xs)"
proof -
  obtain y ys where xs: "xs = y # ys" using assms by (cases xs) auto
  from max_element_from_bound [of xs "[y]" ys 1 0] xs show ?thesis by auto
qed

lemma max_element_from_shift:
  "max_element_from (j, v + c) i (map (\<lambda>s. s + c) xs) = max_element_from (j, v) i xs"
  by (induction xs arbitrary: j v i) simp_all

lemma max_element_shift: "max_element (map (\<lambda>s. s + c) xs) = max_element xs"
  by (cases xs) (simp_all add: max_element_from_shift)

subsection \<open>The two loops in closed form\<close>

lemma softmax_weights_eq:
  "softmax_weights lambda max_score ds ss nrm =
     (map (\<lambda>s. exp (lambda * (s - max_score))) (take (length ds) ss) @ drop (length ss) ds,
      nrm + sum_list (map (\<lambda>s. exp (lambda * (s - max_score))) (take (length ds) ss)))"
  by (induction lambda max_score ds ss nrm rule: softmax_weights.induct)
     (simp_all add: Let_def)

lemma generate_softmax_eq:
  assumes "scores \<noteq> []"
  shows "generate_softmax lambda (Span scores) (Span pdf) =
    (let k = min (length scores) (length pdf);
         ss = take k scores;
         mx = scores ! max_element ss;
         Z = sum_list (map (\<lambda>s. exp (lambda * (s - mx))) ss)
     in (S_EXPLORATION_OK,
         Span (map (\<lambda>s. exp (lambda * (s - mx)) / Z) ss @ replicate (length pdf - k) 0)))"
proof (cases "length scores = length pdf")
  case True
  then show ?thesis using assms
    by (auto simp: Let_def softmax_weights_eq o_def)
next
  case False
  then show ?thesis using assms
    by (simp add: Let_def softmax_weights_eq o_def min_def map_replicate_const)
qed

lemma generate_softmax_no_scores:
  "generate_softmax lambda (Span []) (Span pdf) =
     (E_EXPLORATION_EMPTY_PDF, Span (replicate (length pdf) 0))"
  by (cases pdf) (simp_all add: Let_def map_replicate_const)

text \<open>
  On two valid ranges the status is \<^verbatim>\<open>E_EXPLORATION_EMPTY_PDF\<close> exactly when the
  scores are empty; the length of the pdf plays no part.
\<close>

lemma generate_softmax_empty_pdf_iff:
  "fst (generate_softmax lambda (Span scores) (Span pdf)) = E_EXPLORATION_EMPTY_PDF
     \<longleftrightarrow> scores = []"
  by (cases "scores = []")
     (simp_all add: generate_softmax_eq generate_softmax_no_scores Let_def
        del: generate_softmax.simps)

subsection \<open>Empty ranges\<close>

text \<open>
  Claim C3. The claim expects \<^verbatim>\<open>E_EXPLORATION_EMPTY_PDF\<close> whenever the overlap of the
  two ranges is empty, in particular for non-empty scores and an empty pdf. The code
  tests the length of the scores only: on one score and an empty pdf range it returns
  \<^verbatim>\<open>S_EXPLORATION_OK\<close> and leaves the empty buffer.
\<close>

theorem generate_softmax_empty_pdf_ok:
  "generate_softmax 1 (Span [1]) (Span []) = (S_EXPLORATION_OK, Span [])"
  by (simp add: Let_def)

text \<open>
  Claim C9. With an empty scores range, \<^verbatim>\<open>generate_softmax\<close> stores 0 at every
  position of the pdf buffer and then returns \<^verbatim>\<open>E_EXPLORATION_EMPTY_PDF\<close>: the
  buffer \<open>[5, 6]\<close> comes back as \<open>[0, 0]\<close> together with the error status.
\<close>

theorem generate_softmax_no_scores_zeroes_pdf:
  "generate_softmax lambda (Span []) (Span pdf) =
     (E_EXPLORATION_EMPTY_PDF, Span (replicate (length pdf) 0))
   \<and> generate_softmax 1 (Span []) (Span [5, 6]) = (E_EXPLORATION_EMPTY_PDF, Span [0, 0])"
  using generate_softmax_no_scores [of lambda pdf] by (simp add: Let_def)

subsection \<open>Adding a constant to the scores\<close>

text \<open>
  Claim C8. Adding the same constant \<open>c\<close> to every score changes neither the status nor
  the buffer that \<^verbatim>\<open>generate_softmax\<close> returns, for every \<open>lambda\<close>, every scores
  sequence and every pdf buffer (of the same length or not).
\<close>

theorem generate_softmax_shift:
  "generate_softmax lambda (Span (map (\<lambda>s. s + c) scores)) (Span pdf) =
   generate_softmax lambda (Span scores) (Span pdf)"
proof (cases "scores = []")
  case True
  then show ?thesis by simp
next
  case False
  define k where "k = min (length scores) (length pdf)"
  show ?thesis
  proof (cases "k = 0")
    case True
    then have "pdf = []" using False by (simp add: k_def min_def split: if_splits)
    then show ?thesis using False by (simp add: generate_softmax_eq)
  next
    case k: False
    then have ne: "take k scores \<noteq> []" using False by (auto simp: k_def)
    have "max_element (take k scores) < length (take k scores)"
      using max_element_bound [OF ne] by blast
    then have lt: "max_element (take k scores) < length scores" by simp
    have mx: "map (\<lambda>s. s + c) scores ! max_element (take k (map (\<lambda>s. s + c) scores)) =
        scores ! max_element (take k scores) + c"
      using lt by (simp add: take_map max_element_shift)
    have ne': "map (\<lambda>s. s + c) scores \<noteq> []" using False by simp
    show ?thesis
      unfolding generate_softmax_eq [OF ne'] generate_softmax_eq [OF False]
      using mx by (simp add: Let_def k_def [symmetric] take_map o_def)
  qed
qed

subsection \<open>The result is a distribution\<close>

lemma generate_softmax_is_pdf:
  assumes "scores \<noteq> []" "pdf \<noteq> []"
  shows "\<exists>pdf'. generate_softmax lambda (Span scores) (Span pdf) = (S_EXPLORATION_OK, Span pdf')
           \<and> length pdf' = length pdf \<and> (0 \<le> lambda \<longrightarrow> is_pdf pdf')"
proof -
  define k where "k = min (length scores) (length pdf)"
  define ss where "ss = take k scores"
  define mx where "mx = scores ! max_element ss"
  define Z where "Z = sum_list (map (\<lambda>s. exp (lambda * (s - mx))) ss)"
  define pdf' where
    "pdf' = map (\<lambda>s. exp (lambda * (s - mx)) / Z) ss @ replicate (length pdf - k) 0"
  have run: "generate_softmax lambda (Span scores) (Span pdf) = (S_EXPLORATION_OK, Span pdf')"
    unfolding generate_softmax_eq [OF assms(1)]
    by (simp add: Let_def pdf'_def Z_def mx_def ss_def k_def)
  have ne: "ss \<noteq> []" using assms by (auto simp: ss_def k_def)
  have Z: "0 < Z" unfolding Z_def using ne by (rule sum_list_exp_pos)
  have len: "length pdf' = length pdf" by (auto simp: pdf'_def ss_def k_def)
  have nonneg: "\<forall>x \<in> set pdf'. 0 \<le> x" using Z by (auto simp: pdf'_def)
  have "sum_list (map (\<lambda>s. exp (lambda * (s - mx)) / Z) ss) = 1"
    unfolding Z_def by (rule sum_list_normalised) (use Z in \<open>simp add: Z_def\<close>)
  then have "sum_list pdf' = 1" by (simp add: pdf'_def sum_list_replicate)
  then show ?thesis using run len nonneg by (auto simp: is_pdf_def)
qed

text \<open>
  Claim C5, amended. For every \<open>lambda \<ge> 0\<close>, every non-empty scores sequence and
  every pdf buffer of the same length, \<^verbatim>\<open>generate_softmax\<close> succeeds, the entries of
  the result sum to 1, and every position that holds a maximal score holds a maximal
  probability.
\<close>

theorem generate_softmax_sum_and_max:
  assumes "scores \<noteq> []" "length pdf = length scores" "0 \<le> lambda"
  shows "\<exists>pdf'. generate_softmax lambda (Span scores) (Span pdf) = (S_EXPLORATION_OK, Span pdf')
           \<and> length pdf' = length pdf \<and> sum_list pdf' = 1
           \<and> (\<forall>i < length scores. (\<forall>j < length scores. scores ! j \<le> scores ! i) \<longrightarrow>
                 (\<forall>j < length scores. pdf' ! j \<le> pdf' ! i))"
proof -
  define mx where "mx = scores ! max_element scores"
  define Z where "Z = sum_list (map (\<lambda>s. exp (lambda * (s - mx))) scores)"
  define pdf' where "pdf' = map (\<lambda>s. exp (lambda * (s - mx)) / Z) scores"
  have run: "generate_softmax lambda (Span scores) (Span pdf) = (S_EXPLORATION_OK, Span pdf')"
    unfolding generate_softmax_eq [OF assms(1)]
    by (simp add: Let_def pdf'_def Z_def mx_def assms(2))
  have Z: "0 < Z" unfolding Z_def using assms(1) by (rule sum_list_exp_pos)
  have len: "length pdf' = length pdf" by (simp add: pdf'_def assms(2))
  have sum: "sum_list pdf' = 1"
    unfolding pdf'_def Z_def by (rule sum_list_normalised) (use Z in \<open>simp add: Z_def\<close>)
  have mono: "pdf' ! j \<le> pdf' ! i"
    if "i < length scores" "j < length scores" "scores ! j \<le> scores ! i" for i j
  proof -
    have "lambda * (scores ! j - mx) \<le> lambda * (scores ! i - mx)"
      using that assms(3) by (simp add: mult_left_mono)
    then show ?thesis using that Z by (simp add: pdf'_def divide_right_mono)
  qed
  show ?thesis using run len sum mono by blast
qed

theorem generate_softmax_sum_and_max_witness:
  "[2, 5] \<noteq> ([] :: real list) \<and> length [0, 0 :: real] = length [2, 5 :: real]
   \<and> (0 :: real) \<le> 1
   \<and> [2, 5 :: real] ! 0 \<le> [2, 5] ! 1 \<and> [2, 5 :: real] ! 1 \<le> [2, 5] ! 1
   \<and> (\<exists>pdf'. generate_softmax 1 (Span [2, 5]) (Span [0, 0]) = (S_EXPLORATION_OK, Span pdf')
        \<and> sum_list pdf' = 1 \<and> pdf' ! 0 \<le> pdf' ! 1)"
proof -
  have h: "\<forall>j < length [2, 5 :: real]. [2, 5 :: real] ! j \<le> [2, 5] ! 1"
    by (simp add: nth_Cons' less_Suc_eq)
  from generate_softmax_sum_and_max [of "[2, 5]" "[0, 0]" 1]
  obtain pdf' where
    run: "generate_softmax 1 (Span [2, 5]) (Span [0, 0]) = (S_EXPLORATION_OK, Span pdf')"
    and s: "sum_list pdf' = 1"
    and mx: "\<forall>i < length [2, 5 :: real].
               (\<forall>j < length [2, 5 :: real]. [2, 5 :: real] ! j \<le> [2, 5] ! i) \<longrightarrow>
               (\<forall>j < length [2, 5 :: real]. pdf' ! j \<le> pdf' ! i)"
    by auto
  from mx h have "pdf' ! 0 \<le> pdf' ! 1" by (simp add: less_Suc_eq)
  then show ?thesis using h run s by auto
qed

text \<open>
  With a negative \<open>lambda\<close> the order is reversed, already in exact arithmetic. For
  \<open>lambda = -1\<close> and the scores
  \<open>[0, 1]\<close> the call succeeds, position 1 holds the larger score, and its probability
  is strictly smaller than that of position 0.
\<close>

theorem generate_softmax_negative_lambda:
  "generate_softmax (- 1) (Span [0, 1]) (Span [0, 0]) =
     (S_EXPLORATION_OK, Span [exp 1 / (exp 1 + 1), 1 / (exp 1 + 1)])
   \<and> [0, 1 :: real] ! 0 < [0, 1] ! 1
   \<and> [exp 1 / (exp 1 + 1), 1 / (exp 1 + 1) :: real] ! 1
       < [exp 1 / (exp 1 + 1), 1 / (exp 1 + 1)] ! 0"
  by (simp add: Let_def add.commute divide_strict_right_mono add_pos_pos)

section \<open>Properties of \<^verbatim>\<open>generate_bag\<close>\<close>

lemma accumulate_eq: "accumulate xs init = init + sum_list xs"
  by (induction xs arbitrary: init) (simp_all add: add.assoc)

lemma unat_sum_list:
  "unat (sum_list (ws :: 32 word list)) = sum_list (map unat ws) mod 2 ^ 32"
proof (induction ws)
  case Nil
  then show ?case by simp
next
  case (Cons w ws)
  have "unat (w + sum_list ws) = (unat w + unat (sum_list ws)) mod 2 ^ 32"
    by (simp add: unat_word_ariths)
  also have "\<dots> = (unat w + sum_list (map unat ws)) mod 2 ^ 32"
    unfolding Cons.IH by (rule mod_add_right_eq)
  finally show ?case by simp
qed

lemma real_sum_list_unat:
  "real (sum_list (map unat (ws :: 32 word list))) = sum_list (map (\<lambda>w. real (unat w)) ws)"
  by (induction ws) simp_all

lemma bag_divide_eq:
  "bag_divide ds ts num_models =
     map (\<lambda>t_a. real (unat t_a) / real (unat num_models)) (take (length ds) ts)
       @ drop (length ts) ds"
  by (induction ds ts num_models rule: bag_divide.induct) simp_all

lemma generate_bag_eq:
  assumes "pdf \<noteq> []"
  shows "generate_bag top_actions (Span pdf) =
    (S_EXPLORATION_OK,
     Span (if accumulate top_actions 0 = 0 then 1 # replicate (length pdf - 1) 0
           else map (\<lambda>t_a. real (unat t_a) / real (unat (accumulate top_actions 0)))
                  (take (length pdf) top_actions) @ drop (length top_actions) pdf))"
proof -
  obtain d ds where pdf: "pdf = d # ds" using assms by (cases pdf) auto
  show ?thesis
    unfolding pdf by (simp add: Let_def bag_divide_eq map_replicate_const del: bag_divide.simps)
qed

text \<open>
  Claim C6, amended. On a pdf buffer of length \<open>N > 0\<close> and votes of length \<open>M\<close> whose
  sum is below \<open>2 ^ 32\<close>, \<^verbatim>\<open>generate_bag\<close> succeeds. If the sum of the votes is 0 the
  buffer becomes 1 at position 0 and 0 elsewhere. Otherwise every position
  \<open>i < min M N\<close> becomes \<open>votes[i]\<close> divided by the sum of the votes, and the
  positions from \<open>min M N\<close> on keep their prior content. Five zero votes on a buffer of
  length 5 give \<open>[1, 0, 0, 0, 0]\<close>, and the votes \<open>[3, 1, 0]\<close> on a buffer of length 3
  give \<open>[3/4, 1/4, 0]\<close>.
\<close>

theorem generate_bag_result:
  assumes "pdf \<noteq> []" "sum_list (map unat votes) < 2 ^ 32"
  shows "generate_bag votes (Span pdf) =
    (S_EXPLORATION_OK,
     Span (if sum_list (map unat votes) = 0 then 1 # replicate (length pdf - 1) 0
           else map (\<lambda>v. real (unat v) / real (sum_list (map unat votes)))
                  (take (min (length votes) (length pdf)) votes)
                @ drop (min (length votes) (length pdf)) pdf))
    \<and> generate_bag [0, 0, 0, 0, 0] (Span [0, 0, 0, 0, 0]) = (S_EXPLORATION_OK, Span [1, 0, 0, 0, 0])
    \<and> generate_bag [3, 1, 0] (Span [0, 0, 0]) = (S_EXPLORATION_OK, Span [3 / 4, 1 / 4, 0])"
proof -
  define total where "total = sum_list (map unat votes)"
  have t: "take (min (length votes) (length pdf)) votes = take (length pdf) votes"
    by (simp add: min_def)
  have d: "drop (min (length votes) (length pdf)) pdf = drop (length votes) pdf"
    by (simp add: min_def)
  have u: "unat (accumulate votes 0) = total"
    using assms(2) by (simp add: accumulate_eq unat_sum_list total_def)
  have z: "accumulate votes 0 = 0 \<longleftrightarrow> total = 0"
    unfolding u [symmetric] by (simp add: unat_eq_0)
  have run: "generate_bag votes (Span pdf) =
    (S_EXPLORATION_OK,
     Span (if total = 0 then 1 # replicate (length pdf - 1) 0
           else map (\<lambda>v. real (unat v) / real total) (take (length pdf) votes)
                @ drop (length votes) pdf))"
    unfolding generate_bag_eq [OF assms(1)] z u ..
  have e1: "generate_bag [0, 0, 0, 0, 0] (Span [0, 0, 0, 0, 0]) =
      (S_EXPLORATION_OK, Span [1, 0, 0, 0, 0])"
    by (simp add: Let_def)
  have e2: "generate_bag [3, 1, 0] (Span [0, 0, 0]) = (S_EXPLORATION_OK, Span [3 / 4, 1 / 4, 0])"
    by (simp add: Let_def)
  show ?thesis
    unfolding t d total_def [symmetric] using run e1 e2 by (intro conjI)
qed

theorem generate_bag_result_witness:
  "[9, 9, 9, 9] \<noteq> ([] :: real list)
   \<and> sum_list (map unat [3, 1 :: 32 word]) < 2 ^ 32
   \<and> generate_bag [3, 1] (Span [9, 9, 9, 9]) = (S_EXPLORATION_OK, Span [3 / 4, 1 / 4, 9, 9])"
  using generate_bag_result [of "[9, 9, 9, 9]" "[3, 1]"]
  by (simp add: Let_def)

text \<open>
  Without the bound the total wraps around. The two votes \<open>2 ^ 31\<close> and \<open>2 ^ 31\<close> sum
  to \<open>2 ^ 32\<close>, which is not 0, but \<^verbatim>\<open>num_models\<close> is 0 and the buffer becomes
  \<open>[1, 0]\<close> instead of \<open>[1/2, 1/2]\<close>.
\<close>

theorem generate_bag_total_wraps:
  "generate_bag [2147483648, 2147483648] (Span [9, 9]) = (S_EXPLORATION_OK, Span [1, 0])
   \<and> sum_list (map unat [2147483648, 2147483648 :: 32 word]) = 4294967296
   \<and> sum_list (map unat [2147483648, 2147483648 :: 32 word]) \<noteq> 0"
  by (simp add: Let_def)

text \<open>
  Claim C10. When the total of the votes is 0, \<^verbatim>\<open>generate_bag\<close> writes every one of
  the \<open>N\<close> positions of the pdf buffer: 1 at position 0 and 0 at the positions
  \<open>1 .. N - 1\<close>, whatever the length \<open>M\<close> of the votes. Only when the total is not 0 do
  the positions from \<open>min M N\<close> on keep their prior content.
\<close>

theorem generate_bag_fallback_writes_all:
  assumes "pdf \<noteq> []"
  shows "(accumulate votes 0 = 0 \<longrightarrow>
            generate_bag votes (Span pdf) =
              (S_EXPLORATION_OK, Span (1 # replicate (length pdf - 1) 0)))
       \<and> (accumulate votes 0 \<noteq> 0 \<longrightarrow>
            (\<exists>pdf'. generate_bag votes (Span pdf) = (S_EXPLORATION_OK, Span pdf')
               \<and> length pdf' = length pdf
               \<and> (\<forall>i. min (length votes) (length pdf) \<le> i \<and> i < length pdf
                      \<longrightarrow> pdf' ! i = pdf ! i)))"
proof (intro conjI impI)
  assume "accumulate votes 0 = 0"
  then show "generate_bag votes (Span pdf) =
      (S_EXPLORATION_OK, Span (1 # replicate (length pdf - 1) 0))"
    using generate_bag_eq [OF assms, of votes] by simp
next
  assume nz: "accumulate votes 0 \<noteq> 0"
  define hd' where
    "hd' = map (\<lambda>v. real (unat v) / real (unat (accumulate votes 0))) (take (length pdf) votes)"
  define pdf' where "pdf' = hd' @ drop (length votes) pdf"
  have run: "generate_bag votes (Span pdf) = (S_EXPLORATION_OK, Span pdf')"
    using generate_bag_eq [OF assms, of votes] nz by (simp add: pdf'_def hd'_def)
  have lh: "length hd' = min (length votes) (length pdf)" by (simp add: hd'_def min_def)
  have len: "length pdf' = length pdf" by (auto simp: pdf'_def lh)
  have frame: "pdf' ! i = pdf ! i"
    if "min (length votes) (length pdf) \<le> i" "i < length pdf" for i
  proof -
    have "length votes \<le> i" using that by (simp add: min_def split: if_splits)
    then show ?thesis using that by (simp add: pdf'_def nth_append lh)
  qed
  show "\<exists>pdf'. generate_bag votes (Span pdf) = (S_EXPLORATION_OK, Span pdf')
               \<and> length pdf' = length pdf
               \<and> (\<forall>i. min (length votes) (length pdf) \<le> i \<and> i < length pdf
                      \<longrightarrow> pdf' ! i = pdf ! i)"
    using run len frame by blast
qed

theorem generate_bag_fallback_writes_all_witness:
  "[9, 9, 9] \<noteq> ([] :: real list)
   \<and> accumulate [0] 0 = 0
   \<and> generate_bag [0] (Span [9, 9, 9]) = (S_EXPLORATION_OK, Span [1, 0, 0])
   \<and> accumulate [3, 1] 0 \<noteq> 0
   \<and> generate_bag [3, 1] (Span [9, 9, 9]) = (S_EXPLORATION_OK, Span [3 / 4, 1 / 4, 9])"
  using generate_bag_fallback_writes_all [of "[9, 9, 9]" "[0]"]
    generate_bag_fallback_writes_all [of "[9, 9, 9]" "[3, 1]"]
  by (simp add: Let_def)

section \<open>Properties of \<^verbatim>\<open>enforce_minimum_probability\<close>\<close>

subsection \<open>The loops in closed form\<close>

text \<open>
  \<^verbatim>\<open>support_size\<close> is decremented at most once per entry, so it never wraps.
\<close>

lemma count_support_eq:
  "count_support ds support_size = support_size - length (filter (\<lambda>d. d = 0) ds)"
  by (induction ds arbitrary: support_size) simp_all

lemma raise_to_floor_eq:
  "raise_to_floor min_prob uze ds (t, u, c) =
     (map (\<lambda>p. if (p > 0 \<or> (p = 0 \<and> uze)) \<and> p \<le> min_prob then min_prob else p) ds,
      t + min_prob * real (length (filter (\<lambda>p. (p > 0 \<or> (p = 0 \<and> uze)) \<and> p \<le> min_prob) ds)),
      u + sum_list (filter (\<lambda>p. \<not> ((p > 0 \<or> (p = 0 \<and> uze)) \<and> p \<le> min_prob)) ds),
      c + word_of_nat (length (filter (\<lambda>p. (p > 0 \<or> (p = 0 \<and> uze)) \<and> p \<le> min_prob) ds)))"
  by (induction ds arbitrary: t u c) (simp_all add: algebra_simps)

lemma enforce_uniform_eq:
  assumes "pdf \<noteq> []" "min_prob > 999 / 1000"
  shows "enforce_minimum_probability min_prob uze (Span pdf) =
    (S_EXPLORATION_OK,
     Span (map (\<lambda>d. if uze \<or> d > 0
                     then 1 / real (if uze then length pdf
                                    else length pdf - length (filter (\<lambda>d. d = 0) pdf))
                     else d) pdf))"
proof -
  obtain d ds where pdf: "pdf = d # ds" using assms(1) by (cases pdf) auto
  show ?thesis
    unfolding pdf using assms(2)
    by (simp add: Let_def count_support_eq del: count_support.simps)
qed

lemma enforce_general_eq:
  assumes "pdf \<noteq> []" "\<not> min_prob > 999 / 1000"
  shows "enforce_minimum_probability min_prob uze (Span pdf) =
    (case raise_to_floor (min_prob / real (length pdf)) uze pdf (0, 0, 0) of
       (pdf1, touched_mass, untouched_mass, num_actions_touched) \<Rightarrow>
         if touched_mass > 0 then
           if touched_mass > 999 / 1000 then
             (S_EXPLORATION_OK,
              Span (map (\<lambda>prob.
                if (prob > 0 \<or> (prob = 0 \<and> uze)) \<and>
                   prob \<le> (1 - untouched_mass) / real (unat num_actions_touched)
                then (1 - untouched_mass) / real (unat num_actions_touched) else prob) pdf1))
           else
             (S_EXPLORATION_OK,
              Span (map (\<lambda>d. if d > min_prob / real (length pdf)
                              then d * ((1 - touched_mass) / untouched_mass) else d) pdf1))
         else (S_EXPLORATION_OK, Span pdf1))"
proof -
  obtain d ds where pdf: "pdf = d # ds" using assms(1) by (cases pdf) auto
  show ?thesis
    unfolding pdf using assms(2)
    by (simp add: Let_def del: raise_to_floor.simps split: prod.split)
qed

lemma enforce_length:
  assumes "pdf \<noteq> []"
  shows "\<exists>pdf'. enforce_minimum_probability min_prob uze (Span pdf) = (S_EXPLORATION_OK, Span pdf')
           \<and> length pdf' = length pdf"
proof (cases "min_prob > 999 / 1000")
  case True
  show ?thesis unfolding enforce_uniform_eq [OF assms True] by simp
next
  case False
  show ?thesis
    unfolding enforce_general_eq [OF assms False] raise_to_floor_eq by simp
qed

subsection \<open>A distribution stays a distribution\<close>

text \<open>
  On the uniform path the support is not empty, because the entries sum to 1.
\<close>

lemma enforce_uniform_is_pdf:
  assumes pdf: "is_pdf pdf" and mp: "min_prob > 999 / 1000"
  shows "\<exists>pdf'. enforce_minimum_probability min_prob uze (Span pdf) = (S_EXPLORATION_OK, Span pdf')
           \<and> length pdf' = length pdf \<and> is_pdf pdf'"
proof -
  have ne: "pdf \<noteq> []" using pdf by (rule is_pdf_nonempty)
  have nonneg: "\<forall>x \<in> set pdf. 0 \<le> x" and sum: "sum_list pdf = 1"
    using pdf by (simp_all add: is_pdf_def)
  define S where "S = (if uze then length pdf else length pdf - length (filter (\<lambda>d. d = 0) pdf))"
  define g where "g = (\<lambda>d::real. if uze \<or> d > 0 then 1 / real S else d)"
  have run: "enforce_minimum_probability min_prob uze (Span pdf) = (S_EXPLORATION_OK, Span (map g pdf))"
    unfolding enforce_uniform_eq [OF ne mp] g_def S_def by simp
  define B where "B = (\<lambda>d::real. uze \<or> d > 0)"
  have rest0: "\<forall>x \<in> set (filter (\<lambda>p. \<not> B p) pdf). x = 0"
    using nonneg by (auto simp: B_def)
  then have rest: "sum_list (filter (\<lambda>p. \<not> B p) pdf) = 0"
    by (rule sum_list_all_zero)
  have cnt: "length (filter B pdf) = S"
  proof (cases uze)
    case True
    then show ?thesis by (simp add: B_def S_def)
  next
    case False
    have "filter (\<lambda>d. d > 0) pdf = filter (\<lambda>d. \<not> d = 0) pdf"
      using nonneg by (intro filter_cong) auto
    then have "length (filter (\<lambda>d. d > 0) pdf) = length pdf - length (filter (\<lambda>d. d = 0) pdf)"
      using sum_length_filter_compl [of "\<lambda>d. d = 0" pdf] by simp
    then show ?thesis using False by (simp add: B_def S_def)
  qed
  have S: "0 < S"
  proof (rule ccontr)
    assume "\<not> 0 < S"
    then have "filter B pdf = []" using cnt by simp
    then have "sum_list (filter B pdf) = 0" by simp
    then have "sum_list pdf = 0" using sum_list_filter_split [of pdf B] rest by simp
    then show False using sum by simp
  qed
  have "sum_list (map g pdf) = (1 / real S) * real (length (filter B pdf))
      + 1 * sum_list (filter (\<lambda>p. \<not> B p) pdf)"
    by (rule sum_list_two_kinds) (auto simp: g_def B_def)
  then have s1: "sum_list (map g pdf) = 1" using S by (simp add: cnt rest)
  have n1: "\<forall>x \<in> set (map g pdf). 0 \<le> x" using nonneg by (auto simp: g_def)
  show ?thesis using run s1 n1 by (simp add: is_pdf_def)
qed

text \<open>
  On the general path \<^verbatim>\<open>touched_mass\<close> is the floor times the number of touched
  entries, hence at most \<^verbatim>\<open>min_prob\<close> and never above 0.999: in exact arithmetic the
  branch that recomputes the floor is not taken, and the \<^verbatim>\<open>uint16_t\<close> counter is
  not read. \<^verbatim>\<open>untouched_mass\<close> is at least \<open>1 - touched_mass > 0\<close>, so \<^verbatim>\<open>ratio\<close> is
  a quotient of positive numbers.
\<close>

lemma enforce_general_is_pdf:
  assumes pdf: "is_pdf pdf" and mp: "\<not> min_prob > 999 / 1000"
  shows "\<exists>pdf'. enforce_minimum_probability min_prob uze (Span pdf) = (S_EXPLORATION_OK, Span pdf')
           \<and> length pdf' = length pdf \<and> is_pdf pdf'"
proof -
  have ne: "pdf \<noteq> []" using pdf by (rule is_pdf_nonempty)
  have nonneg: "\<forall>x \<in> set pdf. 0 \<le> x" and sum: "sum_list pdf = 1"
    using pdf by (simp_all add: is_pdf_def)
  define N where "N = length pdf"
  define m where "m = min_prob / real N"
  define B where "B = (\<lambda>p::real. (p > 0 \<or> (p = 0 \<and> uze)) \<and> p \<le> m)"
  define K where "K = length (filter B pdf)"
  define T where "T = m * real K"
  define U where "U = sum_list (filter (\<lambda>p. \<not> B p) pdf)"
  define pdf1 where "pdf1 = map (\<lambda>p. if B p then m else p) pdf"
  define r where "r = (1 - T) / U"
  have N: "0 < N" using ne by (simp add: N_def)
  have pass: "raise_to_floor m uze pdf (0, 0, 0) = (pdf1, T, U, word_of_nat K)"
    unfolding raise_to_floor_eq by (simp add: pdf1_def T_def U_def K_def B_def)
  have KN: "K \<le> N" by (simp add: K_def N_def)
  have T_le: "T \<le> 999 / 1000"
  proof (cases "m \<le> 0")
    case True
    then have "T \<le> 0" by (simp add: T_def mult_nonpos_nonneg)
    then show ?thesis by simp
  next
    case False
    then have "m * real K \<le> m * real N" using KN by (simp add: mult_left_mono)
    also have "\<dots> = min_prob" using N by (simp add: m_def)
    finally show ?thesis using mp by (simp add: T_def)
  qed
  show ?thesis
  proof (cases "T > 0")
    case False
    have "p = m" if "p \<in> set pdf" "B p" for p
    proof -
      have "0 < K" using that by (auto simp: K_def filter_empty_conv)
      then have "m \<le> 0" using False by (simp add: T_def not_less mult_le_0_iff)
      moreover have "0 \<le> p" "p \<le> m" using that nonneg by (auto simp: B_def)
      ultimately show ?thesis by simp
    qed
    then have same: "pdf1 = pdf" unfolding pdf1_def by (intro map_idI) auto
    have "enforce_minimum_probability min_prob uze (Span pdf) = (S_EXPLORATION_OK, Span pdf)"
      unfolding enforce_general_eq [OF ne mp] N_def [symmetric] m_def [symmetric] pass
      using False same by simp
    then show ?thesis using pdf by simp
  next
    case True
    then have m: "0 < m" by (simp add: T_def zero_less_mult_iff)
    have "sum_list (filter B pdf) \<le> m * real (length (filter B pdf))"
      by (rule sum_list_le_const) (simp add: B_def)
    then have "sum_list (filter B pdf) \<le> T" by (simp add: T_def K_def)
    moreover have "sum_list (filter B pdf) + U = 1"
      using sum_list_filter_split [of pdf B] sum by (simp add: U_def)
    ultimately have U: "1 - T \<le> U" by simp
    then have Upos: "0 < U" using T_le by simp
    have r: "0 \<le> r" using T_le Upos by (simp add: r_def)
    define g where "g = (\<lambda>p. if B p then m else if p > m then p * r else p)"
    have "map (\<lambda>d. if d > m then d * ((1 - T) / U) else d) pdf1 = map g pdf"
      by (simp add: pdf1_def g_def r_def)
    then have run: "enforce_minimum_probability min_prob uze (Span pdf) =
        (S_EXPLORATION_OK, Span (map g pdf))"
      unfolding enforce_general_eq [OF ne mp] N_def [symmetric] m_def [symmetric] pass
      using True T_le by simp
    have other: "g p = r * p" if "p \<in> set pdf" "\<not> B p" for p
    proof (cases "p > m")
      case True
      then show ?thesis using that by (simp add: g_def)
    next
      case False
      then have "p = 0" using that nonneg m by (auto simp: B_def)
      then show ?thesis using that by (simp add: g_def)
    qed
    have "sum_list (map g pdf) = m * real (length (filter B pdf))
        + r * sum_list (filter (\<lambda>p. \<not> B p) pdf)"
      by (rule sum_list_two_kinds) (use other in \<open>auto simp: g_def\<close>)
    then have "sum_list (map g pdf) = T + r * U" by (simp add: T_def K_def U_def)
    then have s1: "sum_list (map g pdf) = 1" using Upos by (simp add: r_def)
    have n1: "\<forall>x \<in> set (map g pdf). 0 \<le> x"
      using nonneg m r by (auto simp: g_def)
    show ?thesis using run s1 n1 by (simp add: is_pdf_def)
  qed
qed

lemma enforce_is_pdf:
  assumes "is_pdf pdf"
  shows "\<exists>pdf'. enforce_minimum_probability min_prob uze (Span pdf) = (S_EXPLORATION_OK, Span pdf')
           \<and> length pdf' = length pdf \<and> is_pdf pdf'"
  using assms enforce_uniform_is_pdf enforce_general_is_pdf by (cases "min_prob > 999 / 1000") blast+

text \<open>
  A distribution whose eligible entries are all at or above the floor is left as it is.
\<close>

lemma enforce_fixpoint:
  assumes pdf: "is_pdf pdf" and mp: "\<not> min_prob > 999 / 1000"
    and floor: "\<forall>p \<in> set pdf. p > 0 \<or> uze \<longrightarrow> min_prob / real (length pdf) \<le> p"
  shows "enforce_minimum_probability min_prob uze (Span pdf) = (S_EXPLORATION_OK, Span pdf)"
proof -
  have ne: "pdf \<noteq> []" using pdf by (rule is_pdf_nonempty)
  have nonneg: "\<forall>x \<in> set pdf. 0 \<le> x" and sum: "sum_list pdf = 1"
    using pdf by (simp_all add: is_pdf_def)
  define m where "m = min_prob / real (length pdf)"
  define B where "B = (\<lambda>p::real. (p > 0 \<or> (p = 0 \<and> uze)) \<and> p \<le> m)"
  define K where "K = length (filter B pdf)"
  define T where "T = m * real K"
  define U where "U = sum_list (filter (\<lambda>p. \<not> B p) pdf)"
  have at_floor: "p = m" if "p \<in> set pdf" "B p" for p
    using that floor by (auto simp: B_def m_def)
  then have same: "map (\<lambda>p. if B p then m else p) pdf = pdf"
    by (intro map_idI) auto
  have pass: "raise_to_floor m uze pdf (0, 0, 0) = (pdf, T, U, word_of_nat K)"
    unfolding raise_to_floor_eq using same by (simp add: T_def U_def K_def B_def)
  have "\<forall>p \<in> set (filter B pdf). p = m" using at_floor by simp
  then have "filter B pdf = replicate K m"
    unfolding K_def by (simp add: replicate_length_same)
  then have "sum_list (filter B pdf) = T" by (simp add: T_def sum_list_replicate)
  then have U: "U = 1 - T" using sum_list_filter_split [of pdf B] sum by (simp add: U_def)
  have KN: "K \<le> length pdf" by (simp add: K_def)
  have T_le: "T \<le> 999 / 1000"
  proof (cases "m \<le> 0")
    case True
    then have "T \<le> 0" by (simp add: T_def mult_nonpos_nonneg)
    then show ?thesis by simp
  next
    case False
    then have "m * real K \<le> m * real (length pdf)" using KN by (simp add: mult_left_mono)
    also have "\<dots> = min_prob" using ne by (simp add: m_def)
    finally show ?thesis using mp by (simp add: T_def)
  qed
  then have "(1 - T) / U = 1" using U by simp
  then have "map (\<lambda>d. if d > m then d * ((1 - T) / U) else d) pdf = pdf"
    by (intro map_idI) simp
  then show ?thesis
    unfolding enforce_general_eq [OF ne mp] m_def [symmetric] pass
    using T_le by simp
qed

subsection \<open>Entries above the floor\<close>

text \<open>
  Claim C1. The claim expects every eligible entry to be at least \<open>min_prob / N\<close>
  after a successful call on a distribution, for \<open>min_prob\<close> in \<open>(0, 0.999]\<close>. The code
  raises the entries at or below the floor and scales every entry above the floor by
  \<^verbatim>\<open>ratio\<close>, without comparing the scaled entry with the floor. On the distribution
  \<open>[0.1, 0.31, 0.59]\<close> with \<open>min_prob = 0.9\<close> the floor is \<open>0.3\<close>; entry 1 is positive,
  hence eligible, and is scaled from \<open>0.31\<close> to \<open>217/900 < 0.3\<close>.
\<close>

theorem enforce_minimum_probability_below_floor:
  "enforce_minimum_probability (9 / 10) False (Span [1 / 10, 31 / 100, 59 / 100]) =
     (S_EXPLORATION_OK, Span [3 / 10, 217 / 900, 413 / 900])
   \<and> sum_list [1 / 10, 31 / 100, 59 / 100 :: real] = 1
   \<and> (0 :: real) < [1 / 10, 31 / 100, 59 / 100] ! 1
   \<and> [3 / 10, 217 / 900, 413 / 900 :: real] ! 1 < (9 / 10) / real (length [1 / 10, 31 / 100, 59 / 100 :: real])"
  by (simp add: Let_def)

text \<open>
  Claim C2. The claim expects a second call with the same arguments to change nothing.
  On the distribution \<open>[0, 0.31, 0.69]\<close> with \<open>min_prob = 0.9\<close> and
  \<^verbatim>\<open>update_zero_elements\<close> set, the first call leaves entry 1 below the floor, and the
  second call raises it: the two results differ.
\<close>

theorem enforce_minimum_probability_twice:
  "enforce_minimum_probability (9 / 10) True (Span [0, 31 / 100, 69 / 100]) =
     (S_EXPLORATION_OK, Span [3 / 10, 217 / 1000, 483 / 1000])
   \<and> enforce_minimum_probability (9 / 10) True (Span [3 / 10, 217 / 1000, 483 / 1000]) =
     (S_EXPLORATION_OK, Span [3 / 10, 3 / 10, 2 / 5])
   \<and> [3 / 10, 217 / 1000, 483 / 1000] \<noteq> [3 / 10, 3 / 10, 2 / 5 :: real]"
  by (simp add: Let_def)

section \<open>Successful calls and the invariant\<close>

lemma generate_epsilon_greedy_is_pdf:
  assumes "generate_epsilon_greedy epsilon top_action rng = (S_EXPLORATION_OK, rng')"
  shows "\<exists>pdf pdf'. rng = Span pdf \<and> rng' = Span pdf' \<and> length pdf' = length pdf
           \<and> (0 \<le> epsilon \<and> epsilon \<le> 1 \<longrightarrow> is_pdf pdf')"
proof (cases rng)
  case Inverted
  then show ?thesis using assms by simp
next
  case (Span pdf)
  show ?thesis
  proof (cases "pdf = []")
    case True
    then show ?thesis using assms Span by simp
  next
    case False
    define n where "n = length pdf"
    define t where "t = min (unat top_action) (n - 1)"
    define p where "p = epsilon / real n"
    define pdf' where "pdf' = (replicate n p)[t := p + (1 - epsilon)]"
    have n: "0 < n" using False by (simp add: n_def)
    have t: "t < n" using n by (simp add: t_def)
    have r: "rng' = Span pdf'"
      using assms unfolding Span generate_epsilon_greedy_eq [OF False]
      by (simp add: pdf'_def p_def t_def n_def)
    have len: "length pdf' = length pdf" by (simp add: pdf'_def n_def)
    have s: "sum_list pdf' = 1"
      using t n by (simp add: pdf'_def sum_list_const_update p_def)
    have nn: "\<forall>x \<in> set pdf'. 0 \<le> x" if "0 \<le> epsilon" "epsilon \<le> 1"
    proof
      fix x assume "x \<in> set pdf'"
      then have "x = p \<or> x = p + (1 - epsilon)"
        unfolding pdf'_def using set_update_subset_insert [of "replicate n p" t "p + (1 - epsilon)"]
        by auto
      moreover have "0 \<le> p" using that by (simp add: p_def)
      ultimately show "0 \<le> x" using that by auto
    qed
    show ?thesis using Span r len s nn by (auto simp: is_pdf_def)
  qed
qed

lemma generate_softmax_success_is_pdf:
  assumes "generate_softmax lambda srng rng = (S_EXPLORATION_OK, rng')"
  shows "\<exists>pdf pdf'. rng = Span pdf \<and> rng' = Span pdf' \<and> length pdf' = length pdf
           \<and> (pdf \<noteq> [] \<and> 0 \<le> lambda \<longrightarrow> is_pdf pdf')"
proof (cases rng)
  case Inverted
  then show ?thesis using assms by (cases srng) simp_all
next
  case (Span pdf)
  show ?thesis
  proof (cases srng)
    case Inverted
    then show ?thesis using assms Span by simp
  next
    case sc: (Span scores)
    have ne: "scores \<noteq> []"
      using assms unfolding Span sc by (auto simp: generate_softmax_no_scores simp del: generate_softmax.simps)
    show ?thesis
    proof (cases "pdf = []")
      case True
      then show ?thesis using assms ne unfolding Span sc
        by (auto simp: generate_softmax_eq Let_def simp del: generate_softmax.simps)
    next
      case False
      from generate_softmax_is_pdf [OF ne False, of lambda] assms show ?thesis
        unfolding Span sc by auto
    qed
  qed
qed

lemma generate_bag_success_is_pdf:
  assumes "generate_bag votes rng = (S_EXPLORATION_OK, rng')"
  shows "\<exists>pdf pdf'. rng = Span pdf \<and> rng' = Span pdf' \<and> length pdf' = length pdf
           \<and> (length votes = length pdf \<and> sum_list (map unat votes) < 2 ^ 32 \<longrightarrow> is_pdf pdf')"
proof (cases rng)
  case Inverted
  then show ?thesis using assms by simp
next
  case (Span pdf)
  show ?thesis
  proof (cases "pdf = []")
    case True
    then show ?thesis using assms Span by simp
  next
    case False
    define T where "T = accumulate votes 0"
    show ?thesis
    proof (cases "T = 0")
      case True
      then have r: "rng' = Span (1 # replicate (length pdf - 1) 0)"
        using assms unfolding Span generate_bag_eq [OF False] by (simp add: T_def)
      have "is_pdf (1 # replicate (length pdf - 1) 0)"
        by (simp add: is_pdf_def sum_list_replicate)
      then show ?thesis using Span r False by simp
    next
      case nz: False
      define pdf' where "pdf' = map (\<lambda>v. real (unat v) / real (unat T)) (take (length pdf) votes)
          @ drop (length votes) pdf"
      have r: "rng' = Span pdf'"
        using assms nz unfolding Span generate_bag_eq [OF False] by (simp add: T_def pdf'_def)
      have len: "length pdf' = length pdf" by (auto simp: pdf'_def min_def)
      have "is_pdf pdf'" if eq: "length votes = length pdf" and fit: "sum_list (map unat votes) < 2 ^ 32"
      proof -
        have uT: "unat T = sum_list (map unat votes)"
          using fit by (simp add: T_def accumulate_eq unat_sum_list)
        then have rT: "real (unat T) = sum_list (map (\<lambda>w. real (unat w)) votes)"
          by (simp add: real_sum_list_unat)
        have "unat T \<noteq> 0" using nz by (simp add: unat_eq_0)
        then have "real (unat T) \<noteq> 0" by (simp only: of_nat_eq_0_iff not_False_eq_True)
        then have Tnz: "sum_list (map (\<lambda>w. real (unat w)) votes) \<noteq> 0" unfolding rT .
        have p: "pdf' = map (\<lambda>v. real (unat v) / sum_list (map (\<lambda>w. real (unat w)) votes)) votes"
          unfolding pdf'_def rT using eq by simp
        have "sum_list pdf' = 1" unfolding p using Tnz by (rule sum_list_normalised)
        moreover have "\<forall>x \<in> set pdf'. 0 \<le> x"
          unfolding p by (rule normalised_nonneg) (rule allI, rule of_nat_0_le_iff)
        ultimately show ?thesis by (simp add: is_pdf_def)
      qed
      then show ?thesis using Span r len by simp
    qed
  qed
qed

lemma enforce_success_is_pdf:
  assumes "enforce_minimum_probability min_prob uze rng = (S_EXPLORATION_OK, rng')"
  shows "\<exists>pdf pdf'. rng = Span pdf \<and> rng' = Span pdf' \<and> length pdf' = length pdf
           \<and> (is_pdf pdf \<longrightarrow> is_pdf pdf')"
proof (cases rng)
  case Inverted
  then show ?thesis using assms by simp
next
  case (Span pdf)
  show ?thesis
  proof (cases "pdf = []")
    case True
    then show ?thesis using assms Span by simp
  next
    case False
    from enforce_length [OF False, of min_prob uze] obtain pdf' where
      run: "enforce_minimum_probability min_prob uze (Span pdf) = (S_EXPLORATION_OK, Span pdf')"
      and len: "length pdf' = length pdf" by blast
    have "is_pdf pdf'" if "is_pdf pdf"
      using enforce_is_pdf [OF that, of min_prob uze] run by auto
    then show ?thesis using Span run len assms by auto
  qed
qed

text \<open>
  Claim C4, amended. Whenever one of the four operations returns
  \<^verbatim>\<open>S_EXPLORATION_OK\<close>, the range passed in was valid and the buffer returned has the
  same length. Its entries are non-negative and sum to 1
  \<^item> for \<^verbatim>\<open>generate_epsilon_greedy\<close> when \<open>0 \<le> epsilon \<le> 1\<close>;
  \<^item> for \<^verbatim>\<open>generate_softmax\<close> when the pdf buffer is not empty and \<open>lambda \<ge> 0\<close>;
  \<^item> for \<^verbatim>\<open>generate_bag\<close> when the votes and the pdf buffer have the same length and
    the sum of the votes is below \<open>2 ^ 32\<close>;
  \<^item> for \<^verbatim>\<open>enforce_minimum_probability\<close> when the entries of the buffer passed in
    are non-negative and sum to 1.
\<close>

theorem success_yields_pdf:
  "(generate_epsilon_greedy epsilon top_action rng1 = (S_EXPLORATION_OK, rng1') \<longrightarrow>
      (\<exists>pdf pdf'. rng1 = Span pdf \<and> rng1' = Span pdf' \<and> length pdf' = length pdf
         \<and> (0 \<le> epsilon \<and> epsilon \<le> 1 \<longrightarrow> is_pdf pdf')))
   \<and> (generate_softmax lambda scores rng2 = (S_EXPLORATION_OK, rng2') \<longrightarrow>
      (\<exists>pdf pdf'. rng2 = Span pdf \<and> rng2' = Span pdf' \<and> length pdf' = length pdf
         \<and> (pdf \<noteq> [] \<and> 0 \<le> lambda \<longrightarrow> is_pdf pdf')))
   \<and> (generate_bag votes rng3 = (S_EXPLORATION_OK, rng3') \<longrightarrow>
      (\<exists>pdf pdf'. rng3 = Span pdf \<and> rng3' = Span pdf' \<and> length pdf' = length pdf
         \<and> (length votes = length pdf \<and> sum_list (map unat votes) < 2 ^ 32
              \<longrightarrow> is_pdf pdf')))
   \<and> (enforce_minimum_probability min_prob update_zero_elements rng4 = (S_EXPLORATION_OK, rng4') \<longrightarrow>
      (\<exists>pdf pdf'. rng4 = Span pdf \<and> rng4' = Span pdf' \<and> length pdf' = length pdf
         \<and> (is_pdf pdf \<longrightarrow> is_pdf pdf')))"
  using generate_epsilon_greedy_is_pdf [of epsilon top_action rng1 rng1']
    generate_softmax_success_is_pdf [of lambda scores rng2 rng2']
    generate_bag_success_is_pdf [of votes rng3 rng3']
    enforce_success_is_pdf [of min_prob update_zero_elements rng4 rng4']
  by blast

theorem success_yields_pdf_witness:
  "generate_epsilon_greedy (1 / 2) 7 (Span [0, 0, 0]) = (S_EXPLORATION_OK, Span [1 / 6, 1 / 6, 2 / 3])
   \<and> (0 :: real) \<le> 1 / 2 \<and> (1 / 2 :: real) \<le> 1
   \<and> is_pdf [1 / 6, 1 / 6, 2 / 3]
   \<and> generate_softmax 0 (Span [2, 5]) (Span [0, 0]) = (S_EXPLORATION_OK, Span [1 / 2, 1 / 2])
   \<and> [0, 0] \<noteq> ([] :: real list) \<and> (0 :: real) \<le> 0
   \<and> is_pdf [1 / 2, 1 / 2]
   \<and> generate_bag [3, 1, 0] (Span [0, 0, 0]) = (S_EXPLORATION_OK, Span [3 / 4, 1 / 4, 0])
   \<and> length [3, 1, 0 :: 32 word] = length [0, 0, 0 :: real]
   \<and> sum_list (map unat [3, 1, 0 :: 32 word]) < 2 ^ 32
   \<and> is_pdf [3 / 4, 1 / 4, 0]
   \<and> enforce_minimum_probability (3 / 10) True (Span [1, 0, 0]) =
       (S_EXPLORATION_OK, Span [4 / 5, 1 / 10, 1 / 10])
   \<and> is_pdf [1, 0, 0]
   \<and> is_pdf [4 / 5, 1 / 10, 1 / 10]"
  using success_yields_pdf [where epsilon = "1 / 2" and top_action = 7
      and ?rng1.0 = "Span [0, 0, 0]" and rng1' = "Span [1 / 6, 1 / 6, 2 / 3]"
      and lambda = 0 and scores = "Span [2, 5]"
      and ?rng2.0 = "Span [0, 0]" and rng2' = "Span [1 / 2, 1 / 2]"
      and votes = "[3, 1, 0]"
      and ?rng3.0 = "Span [0, 0, 0]" and rng3' = "Span [3 / 4, 1 / 4, 0]"
      and min_prob = "3 / 10" and update_zero_elements = True
      and ?rng4.0 = "Span [1, 0, 0]" and rng4' = "Span [4 / 5, 1 / 10, 1 / 10]"]
  by (simp add: Let_def is_pdf_def)

text \<open>
  Outside these conditions a successful call need not leave a distribution:
  \<open>epsilon = 2\<close> gives a negative entry; \<^verbatim>\<open>generate_softmax\<close> succeeds on an empty
  pdf buffer, whose entries sum to 0; \<^verbatim>\<open>generate_bag\<close> with fewer votes than
  positions keeps the old content behind the votes, and a vote total that wraps around
  gives entries above 1; \<^verbatim>\<open>enforce_minimum_probability\<close> returns the buffer \<open>[2, 3]\<close>
  as it is.
\<close>

theorem success_without_pdf:
  "generate_epsilon_greedy 2 0 (Span [0, 0, 0]) = (S_EXPLORATION_OK, Span [- 1 / 3, 2 / 3, 2 / 3])
   \<and> \<not> is_pdf [- 1 / 3, 2 / 3, 2 / 3]
   \<and> generate_softmax 1 (Span [1]) (Span []) = (S_EXPLORATION_OK, Span [])
   \<and> \<not> is_pdf []
   \<and> generate_bag [3, 1] (Span [9, 9, 9]) = (S_EXPLORATION_OK, Span [3 / 4, 1 / 4, 9])
   \<and> \<not> is_pdf [3 / 4, 1 / 4, 9]
   \<and> generate_bag [4294967295, 2] (Span [0, 0]) = (S_EXPLORATION_OK, Span [4294967295, 2])
   \<and> \<not> is_pdf [4294967295, 2]
   \<and> enforce_minimum_probability (1 / 2) False (Span [2, 3]) = (S_EXPLORATION_OK, Span [2, 3])
   \<and> \<not> is_pdf [2, 3]"
  by (simp add: Let_def is_pdf_def)

end
